theory Spec2Isabelle
  imports Main "HOL-Library.Word" "HOL-Library.Signed_Division"
begin

unbundle bit_operations_syntax

section \<open>Shader microcode disassembler (src/util/disasm.c)\<close>

text \<open>
  The disassembler reads a buffer of 32-bit words (\<open>uint32_t *dwords\<close>) and prints text.
  The buffer is a list of words; a C read outside the list, outside the \<open>levels\<close> table or
  outside the \<open>op_name\<close> table is undefined behaviour and becomes an explicit fault.
  \<open>uint32_t\<close> arithmetic is arithmetic on \<open>32 word\<close> (it wraps).
\<close>

type_synonym u32 = "32 word"

datatype fault =
    ReadPastBuffer   \<comment> \<open>\<open>dwords[k]\<close> with \<open>k\<close> outside the buffer\<close>
  | LevelPastTable   \<comment> \<open>\<open>levels[level]\<close> outside the 15 entries\<close>
  | OpPastTable      \<comment> \<open>\<open>op_name[op]\<close> outside the 31 entries\<close>

subsection \<open>printf conversions\<close>

definition TAB :: char where
  "TAB = CHR 0x09"

definition digit :: "nat \<Rightarrow> char" where
  "digit d = ''0123456789abcdef'' ! d"

text \<open>\<open>%u\<close>: decimal, no padding.\<close>

fun fmt_u :: "nat \<Rightarrow> string" where
  "fmt_u n = (if n < 10 then [digit n] else fmt_u (n div 10) @ [digit (n mod 10)])"

text \<open>\<open>%x\<close>: lower-case hexadecimal, no padding.\<close>

fun fmt_x :: "nat \<Rightarrow> string" where
  "fmt_x n = (if n < 16 then [digit n] else fmt_x (n div 16) @ [digit (n mod 16)])"

declare fmt_u.simps [simp del] fmt_x.simps [simp del]

text \<open>\<open>%08x\<close> of a 32-bit value: exactly eight hexadecimal digits.\<close>

definition fmt_08x :: "u32 \<Rightarrow> string" where
  "fmt_08x w = map (\<lambda>k. digit (unat (drop_bit (4 * k) w AND 0xf))) [7, 6, 5, 4, 3, 2, 1, 0]"

text \<open>\<open>%02d\<close>: signed decimal, zero-padded to width 2.\<close>

definition fmt_02d :: "int \<Rightarrow> string" where
  "fmt_02d k = (if k < 0 then CHR ''-'' # fmt_u (nat (- k))
                else if k < 10 then CHR ''0'' # fmt_u (nat k)
                else fmt_u (nat k))"

text \<open>\<open>printf("%08x %08x %08x\t", a, b, c)\<close>\<close>

definition fmt_3words :: "u32 \<Rightarrow> u32 \<Rightarrow> u32 \<Rightarrow> string" where
  "fmt_3words a b c = fmt_08x a @ '' '' @ fmt_08x b @ '' '' @ fmt_08x c @ [TAB]"

subsection \<open>Tables\<close>

definition levels :: "string list" where
  "levels =
    [replicate 1 TAB, replicate 2 TAB, replicate 3 TAB, replicate 4 TAB, replicate 5 TAB,
     replicate 6 TAB, replicate 7 TAB, replicate 8 TAB, replicate 9 TAB,
     ''x'', ''x'', ''x'', ''x'', ''x'', ''x'']"

text \<open>\<open>levels[level]\<close> with \<open>int level\<close>.\<close>

definition levels_at :: "int \<Rightarrow> fault + string" where
  "levels_at level =
     (if 0 \<le> level \<and> nat level < length levels then Inr (levels ! nat level)
      else Inl LevelPastTable)"

definition REG_MASK :: u32 where
  "REG_MASK = 0x1f"

definition chan_names :: "char list" where
  "chan_names = [CHR ''x'', CHR ''y'', CHR ''z'', CHR ''w'']"

text \<open>
  \<open>static const char *op_name[0x1f]\<close>: 31 entries, the ones without a designated
  initialiser are null pointers.
\<close>

definition op_name :: "string option list" where
  "op_name =
    [Some ''ADDv'', Some ''MULv'', Some ''MAXv'', None, None, None, None, None,
     None, None, None, Some ''MULADDv'', None, None, None, Some ''DOT4v'',
     Some ''DOT3v'', None, None, None, None, None, None, None,
     None, None, None, None, None, None, None]"

definition op_name_at :: "u32 \<Rightarrow> fault + string option" where
  "op_name_at op =
     (if unat op < length op_name then Inr (op_name ! unat op) else Inl OpPastTable)"

subsection \<open>Operand printers\<close>

text \<open>
  The loop of \<open>print_srcreg\<close>:
  \<open>for (i = 0; i < 4; i++) { printf("%c", chan_names[(swiz + i) & 0x3]); swiz >>= 2; }\<close>
\<close>

function srcreg_loop :: "nat \<Rightarrow> u32 \<Rightarrow> string" where
  "srcreg_loop i swiz =
     (if i < 4
      then chan_names ! unat ((swiz + of_nat i) AND 0x3) # srcreg_loop (i + 1) (drop_bit 2 swiz)
      else [])"
  by pat_completeness auto
termination
  by (relation "measure (\<lambda>(i, swiz). 4 - i)") auto

declare srcreg_loop.simps [simp del]

definition print_srcreg :: "u32 \<Rightarrow> u32 \<Rightarrow> u32 \<Rightarrow> u32 \<Rightarrow> string" where
  "print_srcreg num type swiz negate =
     (if negate \<noteq> 0 then ''-'' else '''')
     @ (if type \<noteq> 0 then CHR ''C'' else CHR ''R'') # fmt_u (unat num)
     @ (if swiz \<noteq> 0 then CHR ''.'' # srcreg_loop 0 swiz else '''')"

text \<open>
  The loop of \<open>print_dstreg\<close>:
  \<open>for (i = 0; i < 4; i++) { printf("%c", (mask & 0x1) ? chan_names[i] : '_'); mask >>= 1; }\<close>
\<close>

function dstreg_loop :: "nat \<Rightarrow> u32 \<Rightarrow> string" where
  "dstreg_loop i msk =
     (if i < 4
      then (if msk AND 0x1 \<noteq> 0 then chan_names ! i else CHR ''_'')
           # dstreg_loop (i + 1) (drop_bit 1 msk)
      else [])"
  by pat_completeness auto
termination
  by (relation "measure (\<lambda>(i, msk). 4 - i)") auto

declare dstreg_loop.simps [simp del]

definition print_dstreg :: "u32 \<Rightarrow> u32 \<Rightarrow> string" where
  "print_dstreg num msk =
     CHR ''R'' # fmt_u (unat num)
     @ (if msk \<noteq> 0xf then CHR ''.'' # dstreg_loop 0 msk else '''')"

subsection \<open>Reading the buffer\<close>

text \<open>\<open>dwords[k]\<close>: a read outside the buffer is a fault.\<close>

definition dword_at :: "u32 list \<Rightarrow> nat \<Rightarrow> fault + u32" where
  "dword_at dwords k = (if k < length dwords then Inr (dwords ! k) else Inl ReadPastBuffer)"

text \<open>
  A pointer \<open>dwords + p\<close> handed to a decoder is the buffer with the offset \<open>p\<close>; each
  decoder reads \<open>p[0]\<close>, \<open>p[1]\<close> and \<open>p[2]\<close>. The three words are read once, here, and
  passed on as a slot.
\<close>

type_synonym slot = "u32 \<times> u32 \<times> u32"

definition slot_at :: "u32 list \<Rightarrow> nat \<Rightarrow> fault + slot" where
  "slot_at dwords p =
     (if p + 2 < length dwords then Inr (dwords ! p, dwords ! (p + 1), dwords ! (p + 2))
      else Inl ReadPastBuffer)"

subsection \<open>Instruction decoders\<close>

text \<open>\<open>print_raw\<close> and \<open>print_unknown\<close> are both defined as 1, so both dumps are printed.\<close>

definition disasm_alu :: "slot \<Rightarrow> int \<Rightarrow> fault + string" where
  "disasm_alu dw level =
     (case dw of (d0, d1, d2) \<Rightarrow>
      (let dst_reg   = d0 AND REG_MASK;
          dst_mask  = drop_bit 16 d0 AND 0xf;
          src1_reg  = drop_bit 16 d2 AND REG_MASK;
          src2_reg  = drop_bit 8 d2 AND REG_MASK;
          src1_type = (if d2 AND 0x80000000 = 0 then 1 else 0);
          src2_type = (if d2 AND 0x40000000 = 0 then 1 else 0);
          src1_swiz = drop_bit 16 d1 AND 0xff;
          src2_swiz = drop_bit 8 d1 AND 0xff;
          src1_neg  = d1 AND 0x04000000;
          src2_neg  = d1 AND 0x02000000;
          op        = drop_bit 24 d2 AND 0x1f;
          unknown   = fmt_3words
                        (d0 AND NOT (REG_MASK OR push_bit 16 0xf))
                        (d1 AND NOT (push_bit 16 0xff OR push_bit 8 0xff OR 0x04000000 OR 0x02000000))
                        (d2 AND NOT (push_bit 16 REG_MASK OR push_bit 8 REG_MASK OR
                                      0x80000000 OR 0x40000000 OR push_bit 24 0x1f))
      in case op_name_at op of
           Inl e \<Rightarrow> Inl e
         | Inr name \<Rightarrow>
             Inr (unknown
                  @ (case name of
                       Some s \<Rightarrow> [TAB] @ ''ALU:'' @ [TAB] @ s
                     | None \<Rightarrow> [TAB] @ ''ALU:'' @ [TAB] @ ''OP('' @ fmt_u (unat op) @ '')'')
                  @ [TAB]
                  @ print_dstreg dst_reg dst_mask
                  @ '' = ''
                  @ print_srcreg src1_reg src1_type src1_swiz src1_neg
                  @ '', ''
                  @ print_srcreg src2_reg src2_type src2_swiz src2_neg
                  @ ''\<newline>'')))"

definition fetch_type :: string where
  "fetch_type = ''SAMPLE''"

definition disasm_fetch :: "slot \<Rightarrow> int \<Rightarrow> fault + string" where
  "disasm_fetch dw level =
     (case dw of (d0, d1, d2) \<Rightarrow>
      let src_const = drop_bit 20 d0 AND 0xf;
          src_reg   = drop_bit 5 d0 AND REG_MASK;
          dst_reg   = drop_bit 12 d0 AND REG_MASK;
          unknown   = fmt_3words
                        (d0 AND NOT (push_bit 5 REG_MASK OR push_bit 12 REG_MASK OR push_bit 20 0xf))
                        (d1 AND NOT 0x00000000)
                        (d2 AND NOT 0x00000000)
      in Inr (unknown
              @ [TAB] @ ''FETCH:'' @ [TAB] @ fetch_type @ [TAB]
              @ ''R'' @ fmt_u (unat dst_reg) @ '' = R'' @ fmt_u (unat src_reg)
              @ '' CONST('' @ fmt_u (unat src_const) @ '')\<newline>''))"

text \<open>
  \<open>disasm_inst(dwords + p, level)\<close>: the indentation is looked up first, then the raw
  words are read, then the slot goes to the ALU or the FETCH decoder.
\<close>

definition disasm_inst :: "u32 list \<Rightarrow> nat \<Rightarrow> int \<Rightarrow> fault + string" where
  "disasm_inst dwords p level =
     (case levels_at level of
        Inl e \<Rightarrow> Inl e
      | Inr indent \<Rightarrow>
          (case slot_at dwords p of
             Inl e \<Rightarrow> Inl e
           | Inr (d0, d1, d2) \<Rightarrow>
               (case (if d2 AND 0xf0000000 \<noteq> 0
                      then disasm_alu (d0, d1, d2) level
                      else disasm_fetch (d0, d1, d2) level) of
                  Inl e \<Rightarrow> Inl e
                | Inr body \<Rightarrow> Inr (indent @ fmt_3words d0 d1 d2 @ body))))"

text \<open>\<open>disasm_cf(dwords + p, level, idx, off, cnt)\<close>; \<open>idx\<close> is printed with \<open>%02d\<close>.\<close>

definition disasm_cf :: "u32 list \<Rightarrow> nat \<Rightarrow> int \<Rightarrow> u32 \<Rightarrow> u32 \<Rightarrow> u32 \<Rightarrow> fault + string" where
  "disasm_cf dwords p level idx off cnt =
     (case levels_at level of
        Inl e \<Rightarrow> Inl e
      | Inr indent \<Rightarrow>
          (case slot_at dwords p of
             Inl e \<Rightarrow> Inl e
           | Inr (d0, d1, d2) \<Rightarrow>
               Inr (indent
                    @ fmt_3words d0 d1 d2
                    @ fmt_3words (d0 AND NOT 0x0000ffff) (d1 AND NOT 0x00000000)
                        (d2 AND NOT 0x00000000)
                    @ fmt_02d (sint idx) @ ''  CF:'' @ [TAB]
                    @ ''ADDR(0x'' @ fmt_x (unat off) @ '') CNT(0x'' @ fmt_x (unat cnt)
                    @ '')\<newline>'')))"

subsection \<open>The control-flow walk\<close>

text \<open>
  What \<open>disasm\<close> has printed is kept as the list of its printing calls, in order: the
  desync marker \<open>printf("?")\<close>, a call of \<open>disasm_inst\<close> on the slot at a word offset, and a
  call of \<open>disasm_cf\<close> on the slot at a word offset with the index, address and count it
  was given. Each call carries the text it printed.
\<close>

datatype emitted =
    Marker
  | Inst nat string
  | CF nat u32 u32 u32 string

fun emitted_text :: "emitted \<Rightarrow> string" where
  "emitted_text Marker = ''?''"
| "emitted_text (Inst p s) = s"
| "emitted_text (CF p idx off cnt s) = s"

record dstate =
  alu_off :: u32
  out :: "emitted list"

text \<open>
  A run either ends in a state, or stops at a fault with the state reached by then (the
  output of the calls that completed before it).
\<close>

type_synonym outcome = "(fault \<times> dstate) + dstate"

definition printed :: "outcome \<Rightarrow> emitted list" where
  "printed r = (case r of Inl (e, st) \<Rightarrow> out st | Inr st \<Rightarrow> out st)"

definition printed_text :: "outcome \<Rightarrow> string" where
  "printed_text r = concat (map emitted_text (printed r))"

definition mark :: "dstate \<Rightarrow> dstate" where
  "mark st = st\<lparr>out := out st @ [Marker]\<rparr>"

text \<open>\<open>disasm_inst(dwords + alu_off, level); alu_off += 3;\<close>\<close>

definition inst_step :: "u32 list \<Rightarrow> int \<Rightarrow> dstate \<Rightarrow> outcome" where
  "inst_step dwords level st =
     (case disasm_inst dwords (unat (alu_off st)) level of
        Inl e \<Rightarrow> Inl (e, st)
      | Inr s \<Rightarrow> Inr \<lparr>alu_off = alu_off st + 3,
                     out = out st @ [Inst (unat (alu_off st)) s]\<rparr>)"

text \<open>\<open>disasm_cf(dwords + p, level, idx, off, cnt);\<close>\<close>

definition cf_step :: "u32 list \<Rightarrow> nat \<Rightarrow> int \<Rightarrow> u32 \<Rightarrow> u32 \<Rightarrow> u32 \<Rightarrow> dstate \<Rightarrow> outcome" where
  "cf_step dwords p level idx off cnt st =
     (case disasm_cf dwords p level idx off cnt of
        Inl e \<Rightarrow> Inl (e, st)
      | Inr s \<Rightarrow> Inr (st\<lparr>out := out st @ [CF p idx off cnt s]\<rparr>))"

text \<open>
  The resynchronisation loop, which \<open>disasm\<close> has twice, before each CF entry with
  \<open>target = off * 3\<close> and after the last one with \<open>target = sizedwords\<close>:
  \<open>while (alu_off != target) { printf("?"); disasm_inst(dwords + alu_off, level); alu_off += 3; }\<close>
\<close>

function resync :: "u32 list \<Rightarrow> int \<Rightarrow> u32 \<Rightarrow> dstate \<Rightarrow> outcome" where
  "resync dwords level target st =
     (if alu_off st \<noteq> target
      then (case inst_step dwords level (mark st) of
              Inl e \<Rightarrow> Inl e
            | Inr st' \<Rightarrow> resync dwords level target st')
      else Inr st)"
  by pat_completeness auto
termination
proof (relation "measure (\<lambda>(dwords, level, target, st). unat ((target - alu_off st) * 0xAAAAAAAB))")
  show "wf (measure (\<lambda>(dwords, level, target, st). unat ((target - alu_off st) * 0xAAAAAAAB)))"
    by simp
next
  fix dwords :: "u32 list" and level :: int and target :: u32 and st st' :: dstate
  assume ne: "alu_off st \<noteq> target" and ok: "inst_step dwords level (mark st) = Inr st'"
  \<comment> \<open>\<open>0xAAAAAAAB\<close> is the inverse of 3 modulo \<open>2^32\<close>: the measure is the number of steps
      of 3 from the cursor to the target, wrap-around included.\<close>
  have inv: "\<And>k::u32. k = 0xAAAAAAAB \<Longrightarrow> 3 * k = 1" by simp
  have next_off: "alu_off st' = alu_off st + 3"
    using ok by (auto simp: inst_step_def mark_def split: sum.splits)
  have "unat ((target - (alu_off st + 3)) * k) < unat ((target - alu_off st) * k)"
    if k: "3 * k = 1" for k :: u32
  proof -
    have step: "(target - (alu_off st + 3)) * k = (target - alu_off st) * k - 3 * k"
      by (simp add: algebra_simps)
    have "(target - alu_off st) * k \<noteq> 0"
    proof
      assume z: "(target - alu_off st) * k = 0"
      have "target - alu_off st = (target - alu_off st) * (3 * k)" using k by simp
      also have "\<dots> = ((target - alu_off st) * k) * 3"
        by (simp add: mult.commute mult.left_commute)
      finally show False using z ne by simp
    qed
    then show ?thesis
      unfolding step k by (simp add: unat_minus_one unat_gt_0)
  qed
  from this [OF inv [OF refl]] next_off
  show "((dwords, level, target, st'), (dwords, level, target, st))
      \<in> measure (\<lambda>(dwords, level, target, st). unat ((target - alu_off st) * 0xAAAAAAAB))"
    by simp
qed

declare resync.simps [simp del]

text \<open>
  The body of a CF entry:
  \<open>for (j = 0; j < cnt; j++) { disasm_inst(dwords + alu_off, level); alu_off += 3; }\<close>
\<close>

function cf_body :: "u32 list \<Rightarrow> int \<Rightarrow> u32 \<Rightarrow> u32 \<Rightarrow> dstate \<Rightarrow> outcome" where
  "cf_body dwords level cnt j st =
     (if j < cnt
      then (case inst_step dwords level st of
              Inl e \<Rightarrow> Inl e
            | Inr st' \<Rightarrow> cf_body dwords level cnt (j + 1) st')
      else Inr st)"
  by pat_completeness auto
termination
proof (relation "measure (\<lambda>(dwords, level, cnt, j, st). unat cnt - unat j)")
  show "wf (measure (\<lambda>(dwords, level, cnt, j, st). unat cnt - unat j))"
    by simp
next
  fix dwords :: "u32 list" and level :: int and cnt j :: u32 and st st' :: dstate
  assume "j < cnt"
  then have lt: "unat j < unat cnt" by (simp add: word_less_nat_alt)
  moreover have "unat cnt < 2 ^ 32" using unsigned_less [of cnt, where 'a = nat] by simp
  ultimately have "unat j + 1 < 2 ^ 32" by simp
  then have "unat (j + 1) = Suc (unat j)" by (simp add: unat_word_ariths)
  with lt show "((dwords, level, cnt, j + 1, st'), (dwords, level, cnt, j, st))
      \<in> measure (\<lambda>(dwords, level, cnt, j, st). unat cnt - unat j)"
    by simp
qed

declare cf_body.simps [simp del]

text \<open>
  One turn of the loop over the CF entries (the body of
  \<open>for (i = 0; i < first_off; i++)\<close>). \<open>sizedwords\<close> is a C \<open>int\<close>: \<open>sizedwords / 3\<close>
  truncates, and the difference with the unsigned \<open>off\<close> is taken in \<open>uint32_t\<close>.
\<close>

definition cf_entry :: "u32 list \<Rightarrow> int \<Rightarrow> int \<Rightarrow> u32 \<Rightarrow> dstate \<Rightarrow> outcome" where
  "cf_entry dwords sizedwords level i st =
     (let idx = i * 3 in
      case dword_at dwords (unat idx) of
        Inl e \<Rightarrow> Inl (e, st)
      | Inr d \<Rightarrow>
          (let off0 = d AND 0x0fff;
              cnt0 = drop_bit 12 (d AND 0xf000);
              st1 = (if d = 0 then mark st else st);
              off = (if d = 0 then alu_off st div 3 else off0);
              cnt = (if d = 0 then word_of_int (sizedwords sdiv 3) - off else cnt0)
          in case resync dwords level (off * 3) st1 of
               Inl e \<Rightarrow> Inl e
             | Inr st2 \<Rightarrow>
                 (case cf_step dwords (unat idx) level i off cnt st2 of
                    Inl e \<Rightarrow> Inl e
                  | Inr st3 \<Rightarrow> cf_body dwords level cnt 0 st3)))"

function cf_entries :: "u32 list \<Rightarrow> int \<Rightarrow> int \<Rightarrow> u32 \<Rightarrow> u32 \<Rightarrow> dstate \<Rightarrow> outcome" where
  "cf_entries dwords sizedwords level first_off i st =
     (if i < first_off
      then (case cf_entry dwords sizedwords level i st of
              Inl e \<Rightarrow> Inl e
            | Inr st' \<Rightarrow> cf_entries dwords sizedwords level first_off (i + 1) st')
      else Inr st)"
  by pat_completeness auto
termination
proof (relation "measure (\<lambda>(dwords, sizedwords, level, first_off, i, st). unat first_off - unat i)")
  show "wf (measure (\<lambda>(dwords, sizedwords, level, first_off, i, st). unat first_off - unat i))"
    by simp
next
  fix dwords :: "u32 list" and sizedwords level :: int and first_off i :: u32
    and st st' :: dstate
  assume "i < first_off"
  then have lt: "unat i < unat first_off" by (simp add: word_less_nat_alt)
  moreover have "unat first_off < 2 ^ 32"
    using unsigned_less [of first_off, where 'a = nat] by simp
  ultimately have "unat i + 1 < 2 ^ 32" by simp
  then have "unat (i + 1) = Suc (unat i)" by (simp add: unat_word_ariths)
  with lt show "((dwords, sizedwords, level, first_off, i + 1, st'),
                 (dwords, sizedwords, level, first_off, i, st))
      \<in> measure (\<lambda>(dwords, sizedwords, level, first_off, i, st). unat first_off - unat i)"
    by simp
qed

declare cf_entries.simps [simp del]

text \<open>
  \<open>int disasm(uint32_t *dwords, int sizedwords, int level)\<close>. The C function always
  returns 0; the model returns what was printed and the final cursor. The buffer is the
  list \<open>dwords\<close>, and \<open>sizedwords\<close> is the length the caller passes for it; in the loop
  test \<open>alu_off != sizedwords\<close> it is converted to \<open>uint32_t\<close>.
\<close>

definition disasm :: "u32 list \<Rightarrow> int \<Rightarrow> int \<Rightarrow> outcome" where
  "disasm dwords sizedwords level =
     (case dword_at dwords 0 of
        Inl e \<Rightarrow> Inl (e, \<lparr>alu_off = 0, out = []\<rparr>)
      | Inr d \<Rightarrow>
          (let first_off = d AND 0xfff;
              st0 = \<lparr>alu_off = first_off * 3, out = []\<rparr>
          in case (if d = 0
                   then (let off = 1;
                             cnt = word_of_int (sizedwords sdiv 3) - off
                         in cf_step dwords 0 level 0 off cnt (st0\<lparr>alu_off := off * 3\<rparr>))
                   else Inr st0) of
               Inl e \<Rightarrow> Inl e
             | Inr st1 \<Rightarrow>
                 (case cf_entries dwords sizedwords level first_off 0 st1 of
                    Inl e \<Rightarrow> Inl e
                  | Inr st2 \<Rightarrow> resync dwords level (word_of_int sizedwords) st2)))"

subsection \<open>Reading the printed output\<close>

text \<open>
  The word offsets of the slots handed to \<open>disasm_inst\<close> and to \<open>disasm_cf\<close>, in the order
  of the calls, and the index, address and count of each CF entry printed.
\<close>

fun inst_offsets :: "emitted list \<Rightarrow> nat list" where
  "inst_offsets [] = []"
| "inst_offsets (Inst p s # es) = p # inst_offsets es"
| "inst_offsets (e # es) = inst_offsets es"

fun cf_offsets :: "emitted list \<Rightarrow> nat list" where
  "cf_offsets [] = []"
| "cf_offsets (CF p idx off cnt s # es) = p # cf_offsets es"
| "cf_offsets (e # es) = cf_offsets es"

fun cf_fields :: "emitted list \<Rightarrow> (u32 \<times> u32 \<times> u32) list" where
  "cf_fields [] = []"
| "cf_fields (CF p idx off cnt s # es) = (idx, off, cnt) # cf_fields es"
| "cf_fields (e # es) = cf_fields es"

text \<open>The fault a run stopped at, if any, and the cursor it stopped with.\<close>

definition fault_of :: "outcome \<Rightarrow> fault option" where
  "fault_of r = (case r of Inl (e, st) \<Rightarrow> Some e | Inr st \<Rightarrow> None)"

definition cursor_of :: "outcome \<Rightarrow> u32" where
  "cursor_of r = (case r of Inl (e, st) \<Rightarrow> alu_off st | Inr st \<Rightarrow> alu_off st)"

text \<open>The word offsets of \<open>k\<close> consecutive slots starting at word offset \<open>a\<close>.\<close>

primrec slots_from :: "nat \<Rightarrow> nat \<Rightarrow> nat list" where
  "slots_from a 0 = []"
| "slots_from a (Suc k) = a # slots_from (a + 3) k"

text \<open>
  What the resynchronisation loop prints for \<open>k\<close> consecutive slots starting at word
  offset \<open>a\<close>: a marker and the decoded slot, for each of them in turn.
\<close>

definition inst_text :: "u32 list \<Rightarrow> nat \<Rightarrow> int \<Rightarrow> string" where
  "inst_text dwords p level = (case disasm_inst dwords p level of Inl e \<Rightarrow> [] | Inr s \<Rightarrow> s)"

primrec marked_run :: "u32 list \<Rightarrow> int \<Rightarrow> nat \<Rightarrow> nat \<Rightarrow> emitted list" where
  "marked_run dwords level a 0 = []"
| "marked_run dwords level a (Suc k) =
     Marker # Inst a (inst_text dwords a level) # marked_run dwords level (a + 3) k"


section \<open>Properties\<close>

subsection \<open>Bit fields\<close>

lemma and3_plus:
  fixes w :: u32
  shows "unat ((w + of_nat i) AND 0x3) = (unat (take_bit 2 w) + i) mod 4"
proof -
  have m: "(0x3 :: u32) = mask 2" by (simp add: mask_eq_exp_minus_1)
  have "unat ((w + of_nat i) AND 0x3) = unat (w + of_nat i) mod 4"
    unfolding m by (simp add: take_bit_eq_mask [symmetric] unsigned_take_bit_eq take_bit_eq_mod unat_mod)
  also have "unat (w + of_nat i) = (unat w + i) mod 2 ^ 32"
    by (simp add: unat_word_ariths unat_of_nat mod_simps)
  also have "(unat w + i) mod 2 ^ 32 mod 4 = (unat w + i) mod 4"
    by (simp add: mod_mod_cancel)
  also have "\<dots> = (unat (take_bit 2 w) + i) mod 4"
    by (simp add: unsigned_take_bit_eq take_bit_eq_mod mod_simps unat_mod)
  finally show ?thesis .
qed

lemma srcreg_loop_eq:
  "srcreg_loop i swiz =
     map (\<lambda>k. chan_names ! ((unat (take_bit 2 (drop_bit (2 * (k - i)) swiz)) + k) mod 4)) [i..<4]"
proof (induction i swiz rule: srcreg_loop.induct)
  case (1 i swiz)
  show ?case
  proof (cases "i < 4")
    case True
    have shift: "drop_bit (2 * (k - (i + 1))) (drop_bit 2 swiz) = drop_bit (2 * (k - i)) swiz"
      if "i + 1 \<le> k" for k
    proof -
      have "2 + 2 * (k - (i + 1)) = 2 * (k - i)" using that by simp
      then show ?thesis by (simp add: add.commute)
    qed
    have "srcreg_loop i swiz =
        chan_names ! unat ((swiz + of_nat i) AND 0x3) # srcreg_loop (i + 1) (drop_bit 2 swiz)"
      using True by (subst srcreg_loop.simps) simp
    also have "unat ((swiz + of_nat i) AND 0x3) = (unat (take_bit 2 swiz) + i) mod 4"
      by (rule and3_plus)
    also have "srcreg_loop (i + 1) (drop_bit 2 swiz) =
        map (\<lambda>k. chan_names ! ((unat (take_bit 2 (drop_bit (2 * (k - i)) swiz)) + k) mod 4))
          [i + 1..<4]"
      unfolding "1.IH" [OF True]
    proof (rule map_cong [OF refl])
      fix k assume "k \<in> set [i + 1..<4]"
      then have "i + 1 \<le> k" by simp
      from shift [OF this]
      show "chan_names ! ((unat (take_bit 2 (drop_bit (2 * (k - (i + 1))) (drop_bit 2 swiz))) + k) mod 4)
          = chan_names ! ((unat (take_bit 2 (drop_bit (2 * (k - i)) swiz)) + k) mod 4)"
        by (simp only:)
    qed
    finally show ?thesis using True by (simp add: upt_conv_Cons)
  next
    case False
    then show ?thesis by (subst srcreg_loop.simps) simp
  qed
qed

lemma upt_0_4: "[0..<4] = [0, 1, 2, 3::nat]"
  by (simp add: upt_rec)

lemma and1_bit:
  fixes w :: u32
  shows "(drop_bit n w AND 0x1 \<noteq> 0) = bit w n"
  by (simp add: and_one_eq bit_iff_odd_drop_bit odd_iff_mod_2_eq_one)

lemma dstreg_loop_eq:
  "dstreg_loop i m =
     map (\<lambda>k. if bit m (k - i) then chan_names ! k else CHR ''_'') [i..<4]"
proof (induction i m rule: dstreg_loop.induct)
  case (1 i m)
  show ?case
  proof (cases "i < 4")
    case True
    have shift: "bit (drop_bit 1 m) (k - (i + 1)) = bit m (k - i)" if "i + 1 \<le> k" for k
    proof -
      have "1 + (k - (i + 1)) = k - i" using that by simp
      then show ?thesis by (simp add: bit_drop_bit_eq del: One_nat_def) 
    qed
    have "dstreg_loop i m =
        (if m AND 0x1 \<noteq> 0 then chan_names ! i else CHR ''_'') # dstreg_loop (i + 1) (drop_bit 1 m)"
      using True by (subst dstreg_loop.simps) simp
    also have "(m AND 0x1 \<noteq> 0) = bit m 0"
      using and1_bit [of 0 m] by simp
    also have "dstreg_loop (i + 1) (drop_bit 1 m) =
        map (\<lambda>k. if bit m (k - i) then chan_names ! k else CHR ''_'') [i + 1..<4]"
      unfolding "1.IH" [OF True] by (rule map_cong) (simp_all add: shift del: One_nat_def)
    finally show ?thesis using True by (simp add: upt_conv_Cons)
  next
    case False
    then show ?thesis by (subst dstreg_loop.simps) simp
  qed
qed

lemma top_nibble:
  fixes w :: u32
  shows "(w AND 0xf0000000 \<noteq> 0) = (bit w 28 \<or> bit w 29 \<or> bit w 30 \<or> bit w 31)"
proof -
  have m: "(0xf0000000 :: u32) = push_bit 28 (mask 4)" by (simp add: mask_eq_exp_minus_1)
  have "(w AND 0xf0000000 \<noteq> 0) = (\<exists>n. bit w n \<and> 28 \<le> n \<and> n < 32)"
    unfolding m by (auto simp: bit_eq_iff bit_simps)
  also have "\<dots> = (bit w 28 \<or> bit w 29 \<or> bit w 30 \<or> bit w 31)"
  proof
    assume "\<exists>n. bit w n \<and> 28 \<le> n \<and> n < 32"
    then obtain n where n: "bit w n" "28 \<le> n" "n < 32" by blast
    then have "n = 28 \<or> n = 29 \<or> n = 30 \<or> n = 31" by arith
    with n(1) show "bit w 28 \<or> bit w 29 \<or> bit w 30 \<or> bit w 31" by auto
  next
    assume "bit w 28 \<or> bit w 29 \<or> bit w 30 \<or> bit w 31"
    then show "\<exists>n. bit w n \<and> 28 \<le> n \<and> n < 32" by auto
  qed
  finally show ?thesis .
qed


lemma and_1f_take_bit:
  fixes w :: u32
  shows "w AND 0x1f = take_bit 5 w"
proof -
  have "(0x1f :: u32) = mask 5" by (simp add: mask_eq_exp_minus_1)
  then show ?thesis by (simp add: take_bit_eq_mask)
qed

lemma and_f_take_bit:
  fixes w :: u32
  shows "w AND 0xf = take_bit 4 w"
proof -
  have "(0xf :: u32) = mask 4" by (simp add: mask_eq_exp_minus_1)
  then show ?thesis by (simp add: take_bit_eq_mask)
qed

lemma and_ff_take_bit:
  fixes w :: u32
  shows "w AND 0xff = take_bit 8 w"
proof -
  have "(0xff :: u32) = mask 8" by (simp add: mask_eq_exp_minus_1)
  then show ?thesis by (simp add: take_bit_eq_mask)
qed

lemma and_single_bit:
  fixes w :: u32
  shows "(w AND 0x80000000 = 0) = (\<not> bit w 31)"
    and "(w AND 0x40000000 = 0) = (\<not> bit w 30)"
    and "(w AND 0x04000000 = 0) = (\<not> bit w 26)"
    and "(w AND 0x02000000 = 0) = (\<not> bit w 25)"
  using and_exp_eq_0_iff_not_bit [where 'a = u32 and a = w and n = 31]
    and_exp_eq_0_iff_not_bit [where 'a = u32 and a = w and n = 30]
    and_exp_eq_0_iff_not_bit [where 'a = u32 and a = w and n = 26]
    and_exp_eq_0_iff_not_bit [where 'a = u32 and a = w and n = 25]
  by simp_all

lemma print_srcreg_flags:
  "print_srcreg num type swiz negate =
     print_srcreg num (of_bool (type \<noteq> 0)) swiz (of_bool (negate \<noteq> 0))"
  by (simp add: print_srcreg_def)

lemma op_name_unknown:
  assumes "n < 31" and "n \<notin> {0, 1, 2, 11, 15, 16}"
  shows "op_name ! n = None"
proof -
  have "\<forall>k \<in> set [0..<31]. k \<notin> {0, 1, 2, 11, 15, 16} \<longrightarrow> op_name ! k = None"
    by code_simp
  with assms show ?thesis by simp
qed

lemma op_name_at_unknown:
  assumes "unat op < 31" and "unat op \<notin> {0, 1, 2, 11, 15, 16}"
  shows "op_name_at op = Inr None"
  using op_name_unknown [OF assms] assms(1) by (simp add: op_name_at_def op_name_def)

lemma levels_at_cases:
  "levels_at L =
     (if 0 \<le> L \<and> L \<le> 8 then Inr (replicate (nat L + 1) TAB)
      else if 9 \<le> L \<and> L \<le> 14 then Inr ''x''
      else Inl LevelPastTable)"
proof -
  have "L < 0 \<or> 14 < L \<or> L = 0 \<or> L = 1 \<or> L = 2 \<or> L = 3 \<or> L = 4 \<or> L = 5
      \<or> L = 6 \<or> L = 7 \<or> L = 8 \<or> L = 9 \<or> L = 10 \<or> L = 11 \<or> L = 12 \<or> L = 13
      \<or> L = 14"
    by arith
  then show ?thesis
    by (elim disjE) (simp_all add: levels_at_def levels_def eval_nat_numeral)
qed

subsection \<open>Runs that complete\<close>

lemma inst_offsets_append [simp]: "inst_offsets (xs @ ys) = inst_offsets xs @ inst_offsets ys"
  by (induction xs rule: inst_offsets.induct) simp_all

lemma cf_offsets_append [simp]: "cf_offsets (xs @ ys) = cf_offsets xs @ cf_offsets ys"
  by (induction xs rule: cf_offsets.induct) simp_all

lemma cf_fields_append [simp]: "cf_fields (xs @ ys) = cf_fields xs @ cf_fields ys"
  by (induction xs rule: cf_fields.induct) simp_all


lemma slots_from_eq_map: "slots_from a k = map (\<lambda>j. a + 3 * j) [0..<k]"
proof (induction k arbitrary: a)
  case 0
  then show ?case by simp
next
  case (Suc k)
  have "map (\<lambda>j. a + 3 * j) [0..<Suc k] = a # map (\<lambda>j. a + 3 * Suc j) [0..<k]"
    by (simp add: upt_conv_Cons map_Suc_upt [symmetric] del: upt_Suc)
  then show ?case using Suc [of "a + 3"] by (simp add: add.assoc)
qed

lemma length_slots_from [simp]: "length (slots_from a k) = k"
  by (simp add: slots_from_eq_map)





lemma inst_step_Inr:
  assumes "inst_step dwords level st = Inr st'"
  shows "unat (alu_off st) + 2 < length dwords"
    and "alu_off st' = alu_off st + 3"
    and "out st' = out st @ [Inst (unat (alu_off st)) (inst_text dwords (unat (alu_off st)) level)]"
  using assms
  by (auto simp: inst_step_def disasm_inst_def slot_at_def inst_text_def
      split: sum.splits if_splits)












subsection \<open>Resynchronisation inside the buffer\<close>

lemma resync_forward:
  assumes "unat (alu_off st) + 3 * n = unat target" and "unat target \<le> length dwords"
  shows "(\<exists>st'. resync dwords level target st = Inr st' \<and> alu_off st' = target
            \<and> out st' = out st @ marked_run dwords level (unat (alu_off st)) n)
       \<or> (\<exists>e st' j. j < n \<and> resync dwords level target st = Inl (e, st')
            \<and> e \<noteq> ReadPastBuffer
            \<and> disasm_inst dwords (unat (alu_off st) + 3 * j) level = Inl e
            \<and> unat (alu_off st') = unat (alu_off st) + 3 * j
            \<and> out st' = out st @ marked_run dwords level (unat (alu_off st)) j @ [Marker])"
  using assms
proof (induction n arbitrary: st)
  case 0
  then have "alu_off st = target" by (simp add: word_unat_eq_iff)
  then show ?case by (simp add: resync.simps)
next
  case (Suc n)
  let ?a = "unat (alu_off st)"
  from Suc.prems have ne: "alu_off st \<noteq> target" by auto
  from Suc.prems have inb: "?a + 2 < length dwords" by simp
  have unf: "resync dwords level target st =
      (case inst_step dwords level (mark st) of
         Inl e \<Rightarrow> Inl e | Inr st1 \<Rightarrow> resync dwords level target st1)"
    using ne by (subst resync.simps) simp
  show ?case
  proof (cases "disasm_inst dwords ?a level")
    case (Inl e)
    with inb have "e \<noteq> ReadPastBuffer"
      by (auto simp: disasm_inst_def slot_at_def levels_at_def disasm_alu_def op_name_at_def
          disasm_fetch_def Let_def split: sum.splits if_splits)
    moreover from Inl have "resync dwords level target st = Inl (e, mark st)"
      unfolding unf by (simp add: inst_step_def mark_def)
    ultimately have "0 < Suc n \<and> resync dwords level target st = Inl (e, mark st)
        \<and> e \<noteq> ReadPastBuffer \<and> disasm_inst dwords (?a + 3 * 0) level = Inl e
        \<and> unat (alu_off (mark st)) = ?a + 3 * 0
        \<and> out (mark st) = out st @ marked_run dwords level ?a 0 @ [Marker]"
      using Inl by (simp add: mark_def)
    then show ?thesis by blast
  next
    case (Inr s)
    define st1 where "st1 = \<lparr>alu_off = alu_off st + 3, out = out st @ [Marker, Inst ?a s]\<rparr>"
    from Inr have step: "inst_step dwords level (mark st) = Inr st1"
      by (simp add: inst_step_def mark_def st1_def)
    have "unat (alu_off st) + unat (3 :: u32) < 2 ^ 32"
      using Suc.prems(1) unsigned_less [of target, where 'a = nat] by simp
    then have a1: "unat (alu_off st1) = ?a + 3"
      by (simp add: st1_def unat_word_ariths)
    with Suc.prems have p: "unat (alu_off st1) + 3 * n = unat target" by simp
    from Inr have itx: "inst_text dwords ?a level = s" by (simp add: inst_text_def)
    have o1: "out st1 @ xs = out st @ marked_run dwords level ?a (Suc 0) @ xs" for xs
      by (simp add: st1_def itx)
    have run: "marked_run dwords level ?a (Suc 0) @ marked_run dwords level (?a + 3) j
        = marked_run dwords level ?a (Suc j)" for j
      by simp
    from Suc.IH [OF p Suc.prems(2)] show ?thesis
    proof
      assume "\<exists>st'. resync dwords level target st1 = Inr st' \<and> alu_off st' = target
          \<and> out st' = out st1 @ marked_run dwords level (unat (alu_off st1)) n"
      then obtain st' where "resync dwords level target st1 = Inr st'" "alu_off st' = target"
        "out st' = out st1 @ marked_run dwords level (unat (alu_off st1)) n" by blast
      then have "resync dwords level target st = Inr st' \<and> alu_off st' = target
          \<and> out st' = out st @ marked_run dwords level ?a (Suc n)"
        unfolding unf a1 o1 using step by (simp add: itx)
      then show ?thesis by blast
    next
      assume "\<exists>e st' j. j < n \<and> resync dwords level target st1 = Inl (e, st')
            \<and> e \<noteq> ReadPastBuffer
            \<and> disasm_inst dwords (unat (alu_off st1) + 3 * j) level = Inl e
            \<and> unat (alu_off st') = unat (alu_off st1) + 3 * j
            \<and> out st' = out st1 @ marked_run dwords level (unat (alu_off st1)) j @ [Marker]"
      then obtain e st' j where j: "j < n" "resync dwords level target st1 = Inl (e, st')"
        "e \<noteq> ReadPastBuffer" "disasm_inst dwords (unat (alu_off st1) + 3 * j) level = Inl e"
        "unat (alu_off st') = unat (alu_off st1) + 3 * j"
        "out st' = out st1 @ marked_run dwords level (unat (alu_off st1)) j @ [Marker]"
        by blast
      then have "Suc j < Suc n \<and> resync dwords level target st = Inl (e, st')
            \<and> e \<noteq> ReadPastBuffer
            \<and> disasm_inst dwords (?a + 3 * Suc j) level = Inl e
            \<and> unat (alu_off st') = ?a + 3 * Suc j
            \<and> out st' = out st @ marked_run dwords level ?a (Suc j) @ [Marker]"
        unfolding unf a1 o1 using step by (simp add: itx add.assoc)
      then show ?thesis by blast
    qed
  qed
qed

lemma inst_offsets_marked_run [simp]:
  "inst_offsets (marked_run dwords level a k) = slots_from a k"
  by (induction k arbitrary: a) simp_all

lemma cf_fields_marked_run [simp]: "cf_fields (marked_run dwords level a k) = []"
  by (induction k arbitrary: a) simp_all

lemma resync_printed:
  "\<exists>more. printed (resync dwords level target st) = out st @ more \<and> cf_fields more = []"
proof (induction dwords level target st rule: resync.induct)
  case (1 dwords level target st)
  show ?case
  proof (cases "alu_off st = target")
    case True
    then show ?thesis by (simp add: resync.simps printed_def)
  next
    case False
    show ?thesis
    proof (cases "inst_step dwords level (mark st)")
      case (Inl x)
      then obtain e where "x = (e, mark st)"
        by (auto simp: inst_step_def split: sum.splits)
      with Inl False have "printed (resync dwords level target st) = out st @ [Marker]"
        by (subst resync.simps) (simp add: printed_def mark_def)
      then show ?thesis by simp
    next
      case (Inr st1)
      from "1.IH" [OF False Inr] obtain more where
        m: "printed (resync dwords level target st1) = out st1 @ more" "cf_fields more = []"
        by blast
      from inst_step_Inr(3) [OF Inr] obtain s where
        "out st1 = out st @ [Marker, Inst (unat (alu_off st)) s]"
        by (simp add: mark_def)
      with m Inr False
      have "printed (resync dwords level target st) =
          out st @ (Marker # Inst (unat (alu_off st)) s # more)"
        by (subst resync.simps) simp
      with m(2) show ?thesis by (intro exI [of _ "Marker # Inst (unat (alu_off st)) s # more"]) simp
    qed
  qed
qed

lemma cf_body_printed:
  "\<exists>more. printed (cf_body dwords level cnt j st) = out st @ more \<and> cf_fields more = []"
proof (induction dwords level cnt j st rule: cf_body.induct)
  case (1 dwords level cnt j st)
  show ?case
  proof (cases "j < cnt")
    case False
    then show ?thesis by (simp add: cf_body.simps printed_def)
  next
    case True
    show ?thesis
    proof (cases "inst_step dwords level st")
      case (Inl x)
      then obtain e where "x = (e, st)"
        by (auto simp: inst_step_def split: sum.splits)
      with Inl True have "printed (cf_body dwords level cnt j st) = out st @ []"
        by (subst cf_body.simps) (simp add: printed_def)
      then show ?thesis by (intro exI [of _ "[]"]) simp
    next
      case (Inr st1)
      from "1.IH" [OF True Inr] obtain more where
        m: "printed (cf_body dwords level cnt (j + 1) st1) = out st1 @ more" "cf_fields more = []"
        by blast
      from inst_step_Inr(3) [OF Inr] obtain s where
        "out st1 = out st @ [Inst (unat (alu_off st)) s]"
        by simp
      with m Inr True
      have "printed (cf_body dwords level cnt j st) = out st @ (Inst (unat (alu_off st)) s # more)"
        by (subst cf_body.simps) simp
      with m(2) show ?thesis by (intro exI [of _ "Inst (unat (alu_off st)) s # more"]) simp
    qed
  qed
qed

subsection \<open>The degenerate header\<close>

lemma sdiv3: "int n sdiv 3 = int (n div 3)"
proof (cases "n = 0")
  case True
  then show ?thesis by simp
next
  case False
  then have "sgn (int n) = 1" by simp
  then show ?thesis by (simp add: signed_divide_int_def zdiv_int)
qed

lemma cf_entries_done: "cf_entries dwords sizedwords level 0 0 st = Inr st"
  by (simp add: cf_entries.simps)

lemma levels_at_ok:
  assumes "0 \<le> level" and "level \<le> 14"
  shows "\<exists>indent. levels_at level = Inr indent"
  using assms by (cases "level \<le> 8") (simp_all add: levels_at_cases)

lemma unat_of_nat_len:
  assumes "m < 2 ^ 32"
  shows "unat (of_nat m :: u32) = m"
  using assms by (simp add: unat_of_nat)

lemma div3_times3:
  fixes a :: u32
  assumes "3 dvd unat a"
  shows "a div 3 * 3 = a"
proof -
  have "unat (a div 3) = unat a div 3" by (simp add: unat_div)
  moreover have "unat a div 3 * unat (3 :: u32) < 2 ^ 32"
    using unsigned_less [of a, where 'a = nat] by simp
  ultimately have "unat (a div 3 * 3) = unat a div 3 * 3"
    using unat_mult_lem [of "a div 3" 3] by (simp del: unat_mult_lem)
  also have "\<dots> = unat a" using assms by simp
  finally show ?thesis by (simp add: word_unat_eq_iff)
qed

lemma zero_header_count:
  fixes a :: u32
  assumes "length dwords < 2 ^ 31" and "unat a \<le> length dwords"
  shows "unat (word_of_int (int (length dwords) sdiv 3) - a div 3 :: u32)
       = length dwords div 3 - unat a div 3"
proof -
  let ?m = "length dwords div 3"
  have q: "unat (a div 3) = unat a div 3" by (simp add: unat_div)
  have le: "unat a div 3 \<le> ?m" using assms(2) by (rule div_le_mono)
  have m: "?m < 2 ^ 32" using assms(1) by simp
  have "a div 3 = of_nat (unat a div 3)" using q by (metis of_nat_unat ucast_id)
  then have "(word_of_int (int (length dwords) sdiv 3) - a div 3 :: u32)
      = of_nat ?m - of_nat (unat a div 3)"
    by (simp add: sdiv3)
  also have "\<dots> = of_nat (?m - unat a div 3)" using le by simp
  finally show ?thesis using m by (simp add: unat_of_nat_len)
qed

subsection \<open>The text of a CF entry\<close>

lemma disasm_cf_text:
  assumes "levels_at level = Inr indent" and "p + 2 < length dwords"
  shows "disasm_cf dwords p level idx off cnt =
     Inr (indent
          @ fmt_3words (dwords ! p) (dwords ! (p + 1)) (dwords ! (p + 2))
          @ fmt_3words (dwords ! p AND NOT 0xffff) (dwords ! (p + 1)) (dwords ! (p + 2))
          @ fmt_02d (sint idx) @ ''  CF:'' @ [TAB]
          @ ''ADDR(0x'' @ fmt_x (unat off) @ '') CNT(0x'' @ fmt_x (unat cnt) @ '')\<newline>'')"
  using assms by (simp add: disasm_cf_def slot_at_def)

lemma fmt_small:
  "fmt_02d 0 = ''00''" "fmt_x 1 = ''1''"
  by (simp_all add: fmt_02d_def fmt_u.simps fmt_x.simps digit_def)

lemma degenerate_disasm_text:
  assumes "3 \<le> length buf" and "length buf < 2 ^ 31" and "buf ! 0 = 0"
    and "levels_at level = Inr indent"
  shows "disasm buf (int (length buf)) level =
           resync buf level (of_nat (length buf))
             \<lparr>alu_off = 3,
              out = [CF 0 0 1 (of_nat (length buf div 3 - 1))
                      (indent
                       @ fmt_3words 0 (buf ! 1) (buf ! 2)
                       @ fmt_3words 0 (buf ! 1) (buf ! 2)
                       @ ''00  CF:'' @ [TAB]
                       @ ''ADDR(0x1) CNT(0x'' @ fmt_x (length buf div 3 - 1) @ '')\<newline>'')]\<rparr>"
proof -
  let ?n = "length buf div 3"
  from assms(1) have sl: "0 + 2 < length buf" by simp
  then have "buf \<noteq> []" by auto
  with assms(3) have d0: "dword_at buf 0 = Inr 0" by (simp add: dword_at_def)
  from assms(1) have pos: "0 < ?n" by simp
  have sd: "int (length buf) sdiv 3 = int ?n" by (rule sdiv3)
  have cnt: "(word_of_int (int (length buf) sdiv 3) - 1 :: u32) = of_nat (?n - 1)"
    unfolding sd using pos by (cases ?n) simp_all
  have "?n - 1 < 2 ^ 32" using assms(2) by simp
  then have ucnt: "unat (of_nat (?n - 1) :: u32) = ?n - 1" by (rule unat_of_nat_len)
  have "disasm_cf buf 0 level 0 1 (of_nat (?n - 1)) =
      Inr (indent
           @ fmt_3words 0 (buf ! 1) (buf ! 2)
           @ fmt_3words 0 (buf ! 1) (buf ! 2)
           @ ''00  CF:'' @ [TAB]
           @ ''ADDR(0x1) CNT(0x'' @ fmt_x (?n - 1) @ '')\<newline>'')"
  proof -
    have a: "fmt_02d (sint (0 :: u32)) = ''00''" by (simp add: fmt_small)
    have b: "fmt_x (unat (1 :: u32)) = ''1''" by (simp add: fmt_x.simps digit_def)
    have c: "fmt_x (unat (of_nat (?n - 1) :: u32)) = fmt_x (?n - 1)" by (simp only: ucnt)
    show ?thesis
      using disasm_cf_text [OF assms(4) sl, of 0 1 "of_nat (?n - 1)"] a b c
      by (simp add: assms(3) numeral_2_eq_2)
  qed
  then show ?thesis
    by (simp add: disasm_def d0 Let_def cnt cf_step_def cf_entries_done)
qed

subsection \<open>Operand formatting\<close>

text \<open>
  C8. \<open>print_srcreg\<close>: a set negate flag puts \<open>-\<close> before the class letter and changes
  nothing else; the class letter is \<open>C\<close> for a constant and \<open>R\<close> otherwise, followed by the
  register number in decimal; a swizzle of 0 prints no suffix; a nonzero swizzle prints
  \<open>.\<close> and exactly four characters from \<open>x y z w\<close>, the one at position \<open>i\<close> being
  \<open>chan_names[(field_i + i) mod 4]\<close> where \<open>field_i\<close> is the \<open>i\<close>-th 2-bit group of the
  swizzle. The last conjunct is the table of the source comment: row \<open>i\<close> lists the names
  for the field values 0, 1, 2, 3 at position \<open>i\<close>.
\<close>

theorem print_srcreg_format:
  "print_srcreg num type swiz negate =
      (if negate \<noteq> 0 then ''-'' else '''')
      @ [if type \<noteq> 0 then CHR ''C'' else CHR ''R''] @ fmt_u (unat num)
      @ (if swiz = 0 then ''''
         else CHR ''.'' # map (\<lambda>i. chan_names ! ((unat (take_bit 2 (drop_bit (2 * i) swiz)) + i) mod 4))
                            [0, 1, 2, 3])
   \<and> (negate \<noteq> 0 \<longrightarrow>
        print_srcreg num type swiz negate = CHR ''-'' # print_srcreg num type swiz 0)
   \<and> (swiz \<noteq> 0 \<longrightarrow>
        (\<exists>cs. length cs = 4 \<and> set cs \<subseteq> {CHR ''x'', CHR ''y'', CHR ''z'', CHR ''w''}
           \<and> print_srcreg num type swiz negate = print_srcreg num type 0 negate @ CHR ''.'' # cs))
   \<and> map (\<lambda>i. map (\<lambda>field. chan_names ! ((field + i) mod 4)) [0, 1, 2, 3]) [0, 1, 2, 3]
        = [''xyzw'', ''yzwx'', ''zwxy'', ''wxyz'']"
proof -
  let ?cs = "map (\<lambda>i. chan_names ! ((unat (take_bit 2 (drop_bit (2 * i) swiz)) + i) mod 4))
                [0, 1, 2, 3]"
  have loop: "srcreg_loop 0 swiz = ?cs"
    by (simp add: srcreg_loop_eq upt_0_4)
  have 1: "print_srcreg num type swiz negate =
      (if negate \<noteq> 0 then ''-'' else '''')
      @ [if type \<noteq> 0 then CHR ''C'' else CHR ''R''] @ fmt_u (unat num)
      @ (if swiz = 0 then '''' else CHR ''.'' # ?cs)"
    unfolding print_srcreg_def loop by simp
  have 2: "negate \<noteq> 0 \<longrightarrow>
        print_srcreg num type swiz negate = CHR ''-'' # print_srcreg num type swiz 0"
    by (simp add: print_srcreg_def)
  have in_names: "chan_names ! (n mod 4) \<in> {CHR ''x'', CHR ''y'', CHR ''z'', CHR ''w''}" for n
  proof -
    have "n mod 4 = 0 \<or> n mod 4 = 1 \<or> n mod 4 = 2 \<or> n mod 4 = 3" by arith
    then show ?thesis by (elim disjE) (simp_all add: chan_names_def)
  qed
  have "set ?cs \<subseteq> {CHR ''x'', CHR ''y'', CHR ''z'', CHR ''w''}"
    using in_names by (simp del: insert_iff)
  moreover have "length ?cs = 4" by simp
  moreover have "swiz \<noteq> 0 \<longrightarrow>
      print_srcreg num type swiz negate = print_srcreg num type 0 negate @ CHR ''.'' # ?cs"
    unfolding print_srcreg_def loop by simp
  ultimately have 3: "swiz \<noteq> 0 \<longrightarrow>
        (\<exists>cs. length cs = 4 \<and> set cs \<subseteq> {CHR ''x'', CHR ''y'', CHR ''z'', CHR ''w''}
           \<and> print_srcreg num type swiz negate = print_srcreg num type 0 negate @ CHR ''.'' # cs)"
    by blast
  have 4: "map (\<lambda>i. map (\<lambda>field. chan_names ! ((field + i) mod 4)) [0, 1, 2, 3]) [0, 1, 2, 3]
        = [''xyzw'', ''yzwx'', ''zwxy'', ''wxyz'']"
    by (simp add: chan_names_def)
  from 1 2 3 4 show ?thesis by (intro conjI)
qed

theorem print_srcreg_format_witness:
  "print_srcreg 3 1 0x1b 4 = ''-C3.wwww'' \<and> print_srcreg 3 1 0x1b 0 = ''C3.wwww''
   \<and> print_srcreg 3 1 0 4 = ''-C3'' \<and> print_srcreg 7 0 0 0 = ''R7''"
  using print_srcreg_format [of 3 1 "0x1b" 4] print_srcreg_format [of 3 1 "0x1b" 0]
    print_srcreg_format [of 3 1 0 4] print_srcreg_format [of 7 0 0 0]
  by (simp add: chan_names_def fmt_u.simps digit_def)

text \<open>
  C9. \<open>print_dstreg\<close>: the mask \<open>0b1111\<close> prints \<open>R<num>\<close> alone; any other mask prints
  \<open>R<num>\<close>, a \<open>.\<close> and exactly four characters, the one at position \<open>i\<close> being the
  channel name (\<open>x\<close>, \<open>y\<close>, \<open>z\<close>, \<open>w\<close>) when bit \<open>i\<close> of the mask is set and \<open>_\<close> otherwise.
\<close>

theorem print_dstreg_format:
  "print_dstreg num m =
      CHR ''R'' # fmt_u (unat num)
      @ (if m = 0xf then ''''
         else CHR ''.'' # map (\<lambda>i. if bit m i then ''xyzw'' ! i else CHR ''_'') [0, 1, 2, 3])"
proof -
  have "dstreg_loop 0 m = map (\<lambda>i. if bit m i then ''xyzw'' ! i else CHR ''_'') [0, 1, 2, 3]"
    by (simp add: dstreg_loop_eq upt_0_4 chan_names_def)
  then show ?thesis
    by (simp add: print_dstreg_def)
qed

theorem print_dstreg_format_witness:
  "print_dstreg 3 5 = ''R3.x_z_'' \<and> print_dstreg 12 0xf = ''R12''"
  using print_dstreg_format [of 3 5] print_dstreg_format [of 12 "0xf"]
  by (simp add: fmt_u.simps digit_def)

subsection \<open>Indentation\<close>

text \<open>
  C10. The indentation table has 15 entries. For a level from 0 to 8 the prefix is
  \<open>level + 1\<close> tab characters (one tab at level 0); for a level from 9 to 14 it is the
  single character \<open>x\<close>; any other level indexes past the table. Every line printed by
  \<open>disasm_inst\<close> and \<open>disasm_cf\<close> starts with that prefix.
\<close>

theorem levels_prefix:
  "length levels = 15
   \<and> (0 \<le> L \<and> L \<le> 8 \<longrightarrow> levels_at L = Inr (replicate (nat L + 1) TAB))
   \<and> (9 \<le> L \<and> L \<le> 14 \<longrightarrow> levels_at L = Inr ''x'')
   \<and> (L < 0 \<or> 14 < L \<longrightarrow> levels_at L = Inl LevelPastTable)
   \<and> (\<forall>dwords p s. disasm_inst dwords p L = Inr s \<longrightarrow>
         (\<exists>indent rest. levels_at L = Inr indent \<and> s = indent @ rest))
   \<and> (\<forall>dwords p idx off cnt s. disasm_cf dwords p L idx off cnt = Inr s \<longrightarrow>
         (\<exists>indent rest. levels_at L = Inr indent \<and> s = indent @ rest))
   \<and> (L < 0 \<or> 14 < L \<longrightarrow>
         (\<forall>dwords p. disasm_inst dwords p L = Inl LevelPastTable)
       \<and> (\<forall>dwords p idx off cnt. disasm_cf dwords p L idx off cnt = Inl LevelPastTable))"
proof -
  have 1: "length levels = 15" by (simp add: levels_def)
  have 2: "0 \<le> L \<and> L \<le> 8 \<longrightarrow> levels_at L = Inr (replicate (nat L + 1) TAB)"
    by (simp add: levels_at_cases)
  have 3: "9 \<le> L \<and> L \<le> 14 \<longrightarrow> levels_at L = Inr ''x''"
    by (simp add: levels_at_cases)
  have 4: "L < 0 \<or> 14 < L \<longrightarrow> levels_at L = Inl LevelPastTable"
    by (auto simp: levels_at_cases)
  have 5: "\<forall>dwords p s. disasm_inst dwords p L = Inr s \<longrightarrow>
         (\<exists>indent rest. levels_at L = Inr indent \<and> s = indent @ rest)"
    by (auto simp: disasm_inst_def split: sum.splits if_splits)
  have 6: "\<forall>dwords p idx off cnt s. disasm_cf dwords p L idx off cnt = Inr s \<longrightarrow>
         (\<exists>indent rest. levels_at L = Inr indent \<and> s = indent @ rest)"
    by (auto simp: disasm_cf_def split: sum.splits)
  have 7: "L < 0 \<or> 14 < L \<longrightarrow>
         (\<forall>dwords p. disasm_inst dwords p L = Inl LevelPastTable)
       \<and> (\<forall>dwords p idx off cnt. disasm_cf dwords p L idx off cnt = Inl LevelPastTable)"
    using 4 by (auto simp: disasm_inst_def disasm_cf_def)
  from 1 2 3 4 5 6 7 show ?thesis by (intro conjI)
qed

theorem levels_prefix_witness:
  "levels_at 0 = Inr [TAB] \<and> levels_at 8 = Inr (replicate 9 TAB) \<and> levels_at 9 = Inr ''x''
   \<and> levels_at 14 = Inr ''x'' \<and> levels_at 15 = Inl LevelPastTable
   \<and> levels_at (- 1) = Inl LevelPastTable
   \<and> disasm_inst [0, 0, 0] 0 15 = Inl LevelPastTable
   \<and> (\<exists>rest. disasm_inst [0, 0, 0] 0 0 = Inr (TAB # rest))
   \<and> (\<exists>rest. disasm_cf [0, 0, 0] 0 9 0 1 0 = Inr (CHR ''x'' # rest))"
proof -
  have a: "\<exists>s. disasm_inst [0, 0, 0] 0 0 = Inr s"
    by (simp add: disasm_inst_def levels_at_cases slot_at_def disasm_fetch_def)
  have b: "\<exists>s. disasm_cf [0, 0, 0] 0 9 0 1 0 = Inr s"
    by (simp add: disasm_cf_def levels_at_cases slot_at_def)
  show ?thesis
    using levels_prefix [of 0] levels_prefix [of 8] levels_prefix [of 9] levels_prefix [of 14]
      levels_prefix [of 15] levels_prefix [of "- 1"] a b
    by (auto simp: eval_nat_numeral)
qed

subsection \<open>Instruction decoding\<close>

text \<open>
  C7. The dispatcher treats a slot as ALU exactly when one of the top four bits of its
  third word is set (\<open>word2 & 0xf0000000\<close> is nonzero) and as FETCH otherwise, and hands
  the slot to the corresponding decoder; the line is the indentation, the raw words and
  what that decoder printed.
\<close>

theorem disasm_inst_dispatch:
  "((d2 AND 0xf0000000 \<noteq> 0) = (bit d2 28 \<or> bit d2 29 \<or> bit d2 30 \<or> bit d2 31))
   \<and> (levels_at level = Inr indent \<and> slot_at dwords p = Inr (d0, d1, d2) \<longrightarrow>
        disasm_inst dwords p level =
          (case (if bit d2 28 \<or> bit d2 29 \<or> bit d2 30 \<or> bit d2 31
                 then disasm_alu (d0, d1, d2) level
                 else disasm_fetch (d0, d1, d2) level) of
             Inl e \<Rightarrow> Inl e
           | Inr body \<Rightarrow> Inr (indent @ fmt_3words d0 d1 d2 @ body)))"
  by (simp add: disasm_inst_def top_nibble)

theorem disasm_inst_dispatch_witness:
  "disasm_inst [0, 0, 0x10000000] 0 0 =
     (case disasm_alu (0, 0, 0x10000000) 0 of
        Inl e \<Rightarrow> Inl e | Inr body \<Rightarrow> Inr ([TAB] @ fmt_3words 0 0 0x10000000 @ body))
   \<and> disasm_inst [0, 0, 0x0fffffff] 0 0 =
     (case disasm_fetch (0, 0, 0x0fffffff) 0 of
        Inl e \<Rightarrow> Inl e | Inr body \<Rightarrow> Inr ([TAB] @ fmt_3words 0 0 0x0fffffff @ body))"
proof -
  have l: "levels_at 0 = Inr [TAB]" by (simp add: levels_at_cases)
  have s1: "slot_at [0, 0, 0x10000000] 0 = Inr (0, 0, 0x10000000)" by (simp add: slot_at_def)
  have s2: "slot_at [0, 0, 0x0fffffff] 0 = Inr (0, 0, 0x0fffffff)" by (simp add: slot_at_def)
  have b1: "bit (0x10000000 :: u32) 28" by simp
  have b2: "\<not> (bit (0x0fffffff :: u32) 28 \<or> bit (0x0fffffff :: u32) 29
      \<or> bit (0x0fffffff :: u32) 30 \<or> bit (0x0fffffff :: u32) 31)" by simp
  show ?thesis
    using disasm_inst_dispatch [of "0x10000000" 0 "[TAB]" "[0, 0, 0x10000000]" 0 0 0]
      disasm_inst_dispatch [of "0x0fffffff" 0 "[TAB]" "[0, 0, 0x0fffffff]" 0 0 0]
      l s1 s2 b1 b2
    by simp
qed

text \<open>
  C3, as stated, fails: the slot \<open>0x140f0001, 0x00220000, 0xe0020100\<close> has opcode field 0
  (bits 24 to 28 of \<open>0xe0020100\<close>), so the mnemonic printed is \<open>ADDv\<close>, not \<open>MULv\<close>.
\<close>

theorem alu_scenario_counterexample:
  "drop_bit 24 (0xe0020100 :: u32) AND 0x1f = 0
   \<and> op_name_at (drop_bit 24 (0xe0020100 :: u32) AND 0x1f) = Inr (Some ''ADDv'')
   \<and> disasm_alu (0x140f0001, 0x00220000, 0xe0020100) 0 =
       Inr (''14000000 00000000 20000000'' @ [TAB, TAB] @ ''ALU:'' @ [TAB] @ ''ADDv'' @ [TAB]
            @ ''R1 = R2.zyxw, R1\<newline>'')"
  by code_simp

text \<open>
  C3, amended. The slot \<open>0x140f0001, 0x00220000, 0xe0020100\<close> has opcode field 0 and
  prints \<open>ADDv\<close> with destination \<open>R1\<close> (mask \<open>0xf\<close>) and sources \<open>R2\<close> (swizzle
  \<open>0x22\<close>) and \<open>R1\<close>; the slot \<open>0x140f0000, 0x00008800, 0xe1000100\<close> is the one with
  opcode field 1 and prints \<open>MULv\<close>. For every slot the fields follow the bit layout:
  destination register in bits 0 to 4 of word 0, destination mask in bits 16 to 19 of
  word 0, first source register in bits 16 to 20 of word 2, second source register in
  bits 8 to 12 of word 2, opcode in bits 24 to 28 of word 2; the only fault is the lookup
  of the opcode in \<open>op_name\<close>.
\<close>

theorem alu_scenario_decode:
  "disasm_alu (0x140f0001, 0x00220000, 0xe0020100) level =
       Inr (''14000000 00000000 20000000'' @ [TAB, TAB] @ ''ALU:'' @ [TAB] @ ''ADDv'' @ [TAB]
            @ print_dstreg 1 0xf @ '' = '' @ print_srcreg 2 0 0x22 0 @ '', ''
            @ print_srcreg 1 0 0 0 @ ''\<newline>'')
   \<and> disasm_alu (0x140f0000, 0x00008800, 0xe1000100) level =
       Inr (''14000000 00000000 20000000'' @ [TAB, TAB] @ ''ALU:'' @ [TAB] @ ''MULv'' @ [TAB]
            @ print_dstreg 0 0xf @ '' = '' @ print_srcreg 0 0 0 0 @ '', ''
            @ print_srcreg 1 0 0x88 0 @ ''\<newline>'')
   \<and> (\<exists>unknown. disasm_alu (d0, d1, d2) level =
         (case op_name_at (take_bit 5 (drop_bit 24 d2)) of
            Inl e \<Rightarrow> Inl e
          | Inr name \<Rightarrow>
              Inr (unknown @ [TAB] @ ''ALU:'' @ [TAB]
                   @ (case name of Some s \<Rightarrow> s
                      | None \<Rightarrow> ''OP('' @ fmt_u (unat (take_bit 5 (drop_bit 24 d2))) @ '')'')
                   @ [TAB]
                   @ print_dstreg (take_bit 5 d0) (take_bit 4 (drop_bit 16 d0))
                   @ '' = ''
                   @ print_srcreg (take_bit 5 (drop_bit 16 d2)) (of_bool (\<not> bit d2 31))
                       (take_bit 8 (drop_bit 16 d1)) (of_bool (bit d1 26))
                   @ '', ''
                   @ print_srcreg (take_bit 5 (drop_bit 8 d2)) (of_bool (\<not> bit d2 30))
                       (take_bit 8 (drop_bit 8 d1)) (of_bool (bit d1 25))
                   @ ''\<newline>'')))"
proof -
  have 1: "disasm_alu (0x140f0001, 0x00220000, 0xe0020100) level =
       Inr (''14000000 00000000 20000000'' @ [TAB, TAB] @ ''ALU:'' @ [TAB] @ ''ADDv'' @ [TAB]
            @ print_dstreg 1 0xf @ '' = '' @ print_srcreg 2 0 0x22 0 @ '', ''
            @ print_srcreg 1 0 0 0 @ ''\<newline>'')"
    by code_simp
  have 2: "disasm_alu (0x140f0000, 0x00008800, 0xe1000100) level =
       Inr (''14000000 00000000 20000000'' @ [TAB, TAB] @ ''ALU:'' @ [TAB] @ ''MULv'' @ [TAB]
            @ print_dstreg 0 0xf @ '' = '' @ print_srcreg 0 0 0 0 @ '', ''
            @ print_srcreg 1 0 0x88 0 @ ''\<newline>'')"
    by code_simp
  have t1: "print_srcreg n (if d2 AND 0x80000000 = 0 then 1 else 0) s (d1 AND 0x04000000)
      = print_srcreg n (of_bool (\<not> bit d2 31)) s (of_bool (bit d1 26))" for n s
    by (subst print_srcreg_flags) (simp add: and_single_bit)
  have t2: "print_srcreg n (if d2 AND 0x40000000 = 0 then 1 else 0) s (d1 AND 0x02000000)
      = print_srcreg n (of_bool (\<not> bit d2 30)) s (of_bool (bit d1 25))" for n s
    by (subst print_srcreg_flags) (simp add: and_single_bit)
  have 3: "\<exists>unknown. disasm_alu (d0, d1, d2) level =
         (case op_name_at (take_bit 5 (drop_bit 24 d2)) of
            Inl e \<Rightarrow> Inl e
          | Inr name \<Rightarrow>
              Inr (unknown @ [TAB] @ ''ALU:'' @ [TAB]
                   @ (case name of Some s \<Rightarrow> s
                      | None \<Rightarrow> ''OP('' @ fmt_u (unat (take_bit 5 (drop_bit 24 d2))) @ '')'')
                   @ [TAB]
                   @ print_dstreg (take_bit 5 d0) (take_bit 4 (drop_bit 16 d0))
                   @ '' = ''
                   @ print_srcreg (take_bit 5 (drop_bit 16 d2)) (of_bool (\<not> bit d2 31))
                       (take_bit 8 (drop_bit 16 d1)) (of_bool (bit d1 26))
                   @ '', ''
                   @ print_srcreg (take_bit 5 (drop_bit 8 d2)) (of_bool (\<not> bit d2 30))
                       (take_bit 8 (drop_bit 8 d1)) (of_bool (bit d1 25))
                   @ ''\<newline>''))"
    unfolding disasm_alu_def Let_def REG_MASK_def prod.case t1 t2
      and_1f_take_bit and_f_take_bit and_ff_take_bit
    by (rule exI [where x = "fmt_3words
                        (d0 AND NOT (0x1f OR push_bit 16 0xf))
                        (d1 AND NOT (push_bit 16 0xff OR push_bit 8 0xff OR 0x04000000 OR 0x02000000))
                        (d2 AND NOT (push_bit 16 0x1f OR push_bit 8 0x1f OR
                                      0x80000000 OR 0x40000000 OR push_bit 24 0x1f))"])
       (simp split: sum.splits option.splits)
  from 1 2 3 show ?thesis by (intro conjI)
qed

theorem alu_scenario_decode_witness:
  "disasm_alu (0x140f0001, 0x00220000, 0xe0020100) 3 =
       Inr (''14000000 00000000 20000000'' @ [TAB, TAB] @ ''ALU:'' @ [TAB] @ ''ADDv'' @ [TAB]
            @ ''R1 = R2.zyxw, R1\<newline>'')"
proof -
  have e: "print_dstreg 1 0xf = ''R1''" "print_srcreg 2 0 0x22 0 = ''R2.zyxw''"
    "print_srcreg 1 0 0 0 = ''R1''"
    by code_simp+
  show ?thesis
    using alu_scenario_decode [of 3 0 0 0] e by simp
qed

text \<open>
  C4. The opcode is a 5-bit field, so it ranges over 0 to 31, but \<open>op_name\<close> is declared
  with \<open>0x1f\<close> = 31 entries (indices 0 to 30). An ALU slot with opcode 31, such as
  \<open>0, 0, 0xff000000\<close>, reads \<open>op_name[31]\<close>, one past the end of the table.
\<close>

theorem alu_opcode_31_past_table:
  "length op_name = 31
   \<and> drop_bit 24 (0xff000000 :: u32) AND 0x1f = 31
   \<and> (0xff000000 :: u32) AND 0xf0000000 \<noteq> 0
   \<and> disasm_alu (0, 0, 0xff000000) 0 = Inl OpPastTable
   \<and> disasm_inst [0, 0, 0xff000000] 0 0 = Inl OpPastTable"
  by code_simp

subsection \<open>The control-flow walk\<close>







text \<open>
  C5. For every buffer whose first word is 0 (with at least the three words of its first
  slot, at a level inside the indentation table), \<open>disasm\<close> prints exactly one CF entry,
  with index 0, address 1 and count \<open>total_slots - 1\<close> where \<open>total_slots\<close> is the word
  length divided by 3: the line printed is the indentation, the raw words of the slot,
  the same words with the known bits masked, and \<open>00  CF:\<close>, a tab and
  \<open>ADDR(0x1) CNT(0x<total_slots - 1 in hexadecimal>)\<close>. The run continues with the cursor
  at 3 straight into the trailing drain, which prints no further CF entry. When the
  length is a multiple of 3 the drain marks and decodes the remaining \<open>total_slots - 1\<close>
  slots in order (or stops at a slot whose decoding faults in the opcode table).
\<close>

theorem degenerate_header_single_cf:
  assumes "3 \<le> length buf" and "length buf < 2 ^ 31" and "buf ! 0 = 0"
    and "0 \<le> level" and "level \<le> 14"
  shows "\<exists>indent s.
           levels_at level = Inr indent
           \<and> s = indent
                 @ fmt_3words 0 (buf ! 1) (buf ! 2)
                 @ fmt_3words 0 (buf ! 1) (buf ! 2)
                 @ ''00  CF:'' @ [TAB]
                 @ ''ADDR(0x1) CNT(0x'' @ fmt_x (length buf div 3 - 1) @ '')\<newline>''
           \<and> disasm buf (int (length buf)) level =
               resync buf level (of_nat (length buf))
                 \<lparr>alu_off = 3, out = [CF 0 0 1 (of_nat (length buf div 3 - 1)) s]\<rparr>
           \<and> (\<exists>more. printed (disasm buf (int (length buf)) level) =
                   CF 0 0 1 (of_nat (length buf div 3 - 1)) s # more
                 \<and> cf_fields more = [])
           \<and> cf_fields (printed (disasm buf (int (length buf)) level)) =
               [(0, 1, of_nat (length buf div 3 - 1))]
           \<and> (3 dvd length buf \<longrightarrow>
                (fault_of (disasm buf (int (length buf)) level) = None
                 \<and> cursor_of (disasm buf (int (length buf)) level) = of_nat (length buf)
                 \<and> printed (disasm buf (int (length buf)) level) =
                     CF 0 0 1 (of_nat (length buf div 3 - 1)) s
                     # marked_run buf level 3 (length buf div 3 - 1))
              \<or> (\<exists>e j. j < length buf div 3 - 1
                 \<and> fault_of (disasm buf (int (length buf)) level) = Some e
                 \<and> e \<noteq> ReadPastBuffer
                 \<and> disasm_inst buf (3 + 3 * j) level = Inl e
                 \<and> printed (disasm buf (int (length buf)) level) =
                     CF 0 0 1 (of_nat (length buf div 3 - 1)) s
                     # marked_run buf level 3 j @ [Marker]))"
proof -
  let ?n = "length buf div 3"
  from levels_at_ok [OF assms(4,5)] obtain indent where ind: "levels_at level = Inr indent"
    by blast
  define s where "s = indent
                 @ fmt_3words 0 (buf ! 1) (buf ! 2)
                 @ fmt_3words 0 (buf ! 1) (buf ! 2)
                 @ ''00  CF:'' @ [TAB]
                 @ ''ADDR(0x1) CNT(0x'' @ fmt_x (?n - 1) @ '')\<newline>''"
  let ?st = "\<lparr>alu_off = 3, out = [CF 0 0 1 (of_nat (?n - 1)) s]\<rparr>"
  let ?r = "resync buf level (of_nat (length buf)) ?st"
  have d: "disasm buf (int (length buf)) level = ?r"
    unfolding s_def by (rule degenerate_disasm_text [OF assms(1,2,3) ind])
  from resync_printed [of buf level "of_nat (length buf)" ?st]
  obtain more where more: "printed ?r = CF 0 0 1 (of_nat (?n - 1)) s # more" "cf_fields more = []"
    by auto
  then have cf: "cf_fields (printed ?r) = [(0, 1, of_nat (?n - 1))]" by simp
  have len: "unat (of_nat (length buf) :: u32) = length buf"
    using assms(2) by (intro unat_of_nat_len) simp
  have le: "unat (of_nat (length buf) :: u32) \<le> length buf" unfolding len by simp
  have drain: "(fault_of ?r = None \<and> cursor_of ?r = of_nat (length buf)
          \<and> printed ?r = CF 0 0 1 (of_nat (?n - 1)) s # marked_run buf level 3 (?n - 1))
      \<or> (\<exists>e j. j < ?n - 1 \<and> fault_of ?r = Some e \<and> e \<noteq> ReadPastBuffer
          \<and> disasm_inst buf (3 + 3 * j) level = Inl e
          \<and> printed ?r = CF 0 0 1 (of_nat (?n - 1)) s # marked_run buf level 3 j @ [Marker])"
    if dv: "3 dvd length buf"
  proof -
    from dv assms(1) have pre: "unat (alu_off ?st) + 3 * (?n - 1) = unat (of_nat (length buf) :: u32)"
      unfolding len by auto
    from resync_forward [OF pre le, of level] show ?thesis
      by (elim disjE exE conjE) (simp_all add: fault_of_def cursor_of_def printed_def, blast)
  qed
  have "levels_at level = Inr indent
      \<and> s = indent
                 @ fmt_3words 0 (buf ! 1) (buf ! 2)
                 @ fmt_3words 0 (buf ! 1) (buf ! 2)
                 @ ''00  CF:'' @ [TAB]
                 @ ''ADDR(0x1) CNT(0x'' @ fmt_x (?n - 1) @ '')\<newline>''
      \<and> disasm buf (int (length buf)) level = ?r
      \<and> (\<exists>more. printed (disasm buf (int (length buf)) level) =
                   CF 0 0 1 (of_nat (?n - 1)) s # more \<and> cf_fields more = [])
      \<and> cf_fields (printed (disasm buf (int (length buf)) level)) = [(0, 1, of_nat (?n - 1))]
      \<and> (3 dvd length buf \<longrightarrow>
                (fault_of (disasm buf (int (length buf)) level) = None
                 \<and> cursor_of (disasm buf (int (length buf)) level) = of_nat (length buf)
                 \<and> printed (disasm buf (int (length buf)) level) =
                     CF 0 0 1 (of_nat (?n - 1)) s # marked_run buf level 3 (?n - 1))
              \<or> (\<exists>e j. j < ?n - 1
                 \<and> fault_of (disasm buf (int (length buf)) level) = Some e
                 \<and> e \<noteq> ReadPastBuffer
                 \<and> disasm_inst buf (3 + 3 * j) level = Inl e
                 \<and> printed (disasm buf (int (length buf)) level) =
                     CF 0 0 1 (of_nat (?n - 1)) s # marked_run buf level 3 j @ [Marker]))"
    unfolding d using ind s_def more cf drain by blast
  then show ?thesis by blast
qed

theorem degenerate_header_single_cf_witness:
  "hd (printed (disasm [0, 0, 0, 5, 5, 5, 7, 7, 0xf7000000] 9 3)) =
      CF 0 0 1 2 (replicate 4 TAB
                  @ ''00000000 00000000 00000000'' @ [TAB]
                  @ ''00000000 00000000 00000000'' @ [TAB]
                  @ ''00  CF:'' @ [TAB] @ ''ADDR(0x1) CNT(0x2)\<newline>'')
   \<and> cf_fields (printed (disasm [0, 0, 0, 5, 5, 5, 7, 7, 0xf7000000] 9 3)) = [(0, 1, 2)]
   \<and> fault_of (disasm [0, 0, 0, 5, 5, 5, 7, 7, 0xf7000000] 9 3) = None
   \<and> cursor_of (disasm [0, 0, 0, 5, 5, 5, 7, 7, 0xf7000000] 9 3) = 9"
proof -
  let ?buf = "[0, 0, 0, 5, 5, 5, 7, 7, 0xf7000000] :: u32 list"
  have len: "length ?buf = 9" by simp
  have ok: "fault_of (disasm ?buf 9 3) = None" by code_simp
  have lv: "levels_at 3 = Inr (replicate 4 TAB)" by (simp add: levels_at_cases)
  have w: "fmt_3words 0 0 0 = ''00000000 00000000 00000000'' @ [TAB]" by code_simp
  have x: "fmt_x 2 = ''2''" by (simp add: fmt_x.simps digit_def)
  show ?thesis
    using degenerate_header_single_cf [of ?buf 3] ok lv w x unfolding len by auto
qed

text \<open>
  C6, as stated, fails on the count. In the 12-word buffer (4 slots)
  \<open>2 0 0 | 0 0 0 | 5 5 5 | 7 7 0xf7000000\<close> the header slot with index 1 is all-zero and
  the cursor is at 6: the entry is printed with address 2 and count 2, which is
  \<open>sizedwords / 3 - addr = 4 - 2\<close>, the number of slots minus the address, and not the
  number of slots divided by 3 minus the address.
\<close>

theorem zero_header_entry_counterexample:
  "cf_fields (printed (disasm [2, 0, 0, 0, 0, 0, 5, 5, 5, 7, 7, 0xf7000000] 12 0))
      = [(0, 2, 0), (1, 2, 2)]
   \<and> length [2, 0, 0, 0, 0, 0, 5, 5, 5, 7, 7, 0xf7000000 :: u32] div 3 = 4
   \<and> (word_of_int (((12 :: int) sdiv 3) sdiv 3) - 2 :: u32) \<noteq> 2
   \<and> (word_of_int ((12 :: int) sdiv 3) - 2 :: u32) = 2"
  by code_simp

text \<open>
  C6, amended. For a CF-header slot of the loop whose first word is 0, the entry gets
  \<open>addr = cursor / 3\<close> and \<open>count = sizedwords / 3 - addr\<close>, that is the total number of
  slots minus \<open>addr\<close>; a marker is printed first, then the guard runs towards \<open>addr * 3\<close>
  (it prints nothing when the cursor is on a slot boundary), then the entry is printed
  with these values and its \<open>count\<close> slots are decoded. The line of the entry is the
  indentation, the raw words of the header slot, the same words with the known bits
  masked, the index with \<open>%02d\<close>, \<open>  CF:\<close>, a tab and
  \<open>ADDR(0x<addr>) CNT(0x<count>)\<close> in hexadecimal.
\<close>

theorem zero_header_entry:
  assumes "dword_at dwords (unat (i * 3)) = Inr 0"
  shows "cf_entry dwords sizedwords level i st =
          (case resync dwords level (alu_off st div 3 * 3) (mark st) of
             Inl e \<Rightarrow> Inl e
           | Inr st2 \<Rightarrow>
               (case cf_step dwords (unat (i * 3)) level i (alu_off st div 3)
                       (word_of_int (sizedwords sdiv 3) - alu_off st div 3) st2 of
                  Inl e \<Rightarrow> Inl e
                | Inr st3 \<Rightarrow>
                    cf_body dwords level (word_of_int (sizedwords sdiv 3) - alu_off st div 3) 0 st3))
       \<and> (3 dvd unat (alu_off st) \<and> unat (i * 3) + 2 < length dwords \<and> 0 \<le> level \<and> level \<le> 14
            \<longrightarrow> (\<exists>indent s rest.
                    levels_at level = Inr indent
                  \<and> s = indent
                        @ fmt_3words 0 (dwords ! (unat (i * 3) + 1)) (dwords ! (unat (i * 3) + 2))
                        @ fmt_3words 0 (dwords ! (unat (i * 3) + 1)) (dwords ! (unat (i * 3) + 2))
                        @ fmt_02d (sint i) @ ''  CF:'' @ [TAB]
                        @ ''ADDR(0x'' @ fmt_x (unat (alu_off st) div 3)
                        @ '') CNT(0x''
                        @ fmt_x (unat (word_of_int (sizedwords sdiv 3) - alu_off st div 3 :: u32))
                        @ '')\<newline>''
                  \<and> printed (cf_entry dwords sizedwords level i st) =
                      out st @ Marker # CF (unat (i * 3)) i (alu_off st div 3)
                        (word_of_int (sizedwords sdiv 3) - alu_off st div 3) s # rest
                  \<and> cf_fields rest = []))
       \<and> (sizedwords = int (length dwords) \<and> length dwords < 2 ^ 31
            \<and> unat (alu_off st) \<le> length dwords
            \<longrightarrow> unat (word_of_int (sizedwords sdiv 3) - alu_off st div 3 :: u32)
                  = length dwords div 3 - unat (alu_off st) div 3)"
proof -
  let ?off = "alu_off st div 3"
  let ?cnt = "word_of_int (sizedwords sdiv 3) - ?off :: u32"
  let ?p = "unat (i * 3)"
  have 1: "cf_entry dwords sizedwords level i st =
          (case resync dwords level (?off * 3) (mark st) of
             Inl e \<Rightarrow> Inl e
           | Inr st2 \<Rightarrow>
               (case cf_step dwords ?p level i ?off ?cnt st2 of
                  Inl e \<Rightarrow> Inl e
                | Inr st3 \<Rightarrow> cf_body dwords level ?cnt 0 st3))"
    by (simp add: cf_entry_def assms Let_def)
  have 2: "\<exists>indent s rest.
              levels_at level = Inr indent
            \<and> s = indent
                  @ fmt_3words 0 (dwords ! (?p + 1)) (dwords ! (?p + 2))
                  @ fmt_3words 0 (dwords ! (?p + 1)) (dwords ! (?p + 2))
                  @ fmt_02d (sint i) @ ''  CF:'' @ [TAB]
                  @ ''ADDR(0x'' @ fmt_x (unat (alu_off st) div 3)
                  @ '') CNT(0x'' @ fmt_x (unat ?cnt) @ '')\<newline>''
            \<and> printed (cf_entry dwords sizedwords level i st) =
                      out st @ Marker # CF ?p i ?off ?cnt s # rest
            \<and> cf_fields rest = []"
    if al: "3 dvd unat (alu_off st)" and inb: "?p + 2 < length dwords"
      and lv: "0 \<le> level" "level \<le> 14"
  proof -
    from levels_at_ok [OF lv] obtain indent where ind: "levels_at level = Inr indent" by blast
    define s where "s = indent
                  @ fmt_3words 0 (dwords ! (?p + 1)) (dwords ! (?p + 2))
                  @ fmt_3words 0 (dwords ! (?p + 1)) (dwords ! (?p + 2))
                  @ fmt_02d (sint i) @ ''  CF:'' @ [TAB]
                  @ ''ADDR(0x'' @ fmt_x (unat (alu_off st) div 3)
                  @ '') CNT(0x'' @ fmt_x (unat ?cnt) @ '')\<newline>''"
    from assms inb have z: "dwords ! ?p = 0" by (simp add: dword_at_def split: if_splits)
    have q: "unat ?off = unat (alu_off st) div 3" by (simp add: unat_div)
    from div3_times3 [OF al] have "resync dwords level (?off * 3) (mark st) = Inr (mark st)"
      by (simp add: resync.simps mark_def)
    moreover have "disasm_cf dwords ?p level i ?off ?cnt = Inr s"
      unfolding s_def using disasm_cf_text [OF ind inb, of i ?off ?cnt] by (simp add: z q)
    ultimately have e: "cf_entry dwords sizedwords level i st =
        cf_body dwords level ?cnt 0 (st\<lparr>out := out st @ [Marker, CF ?p i ?off ?cnt s]\<rparr>)"
      unfolding 1 by (simp add: cf_step_def mark_def)
    from cf_body_printed [of dwords level ?cnt 0
        "(st\<lparr>out := out st @ [Marker, CF ?p i ?off ?cnt s]\<rparr>)"]
    obtain rest where "printed (cf_entry dwords sizedwords level i st) =
        (out st @ [Marker, CF ?p i ?off ?cnt s]) @ rest" "cf_fields rest = []"
      unfolding e by auto
    with ind s_def show ?thesis by auto
  qed
  have 3: "unat ?cnt = length dwords div 3 - unat (alu_off st) div 3"
    if "sizedwords = int (length dwords)" "length dwords < 2 ^ 31"
      "unat (alu_off st) \<le> length dwords"
    using zero_header_count [OF that(2,3)] that(1) by simp
  from 1 2 3 show ?thesis by blast
qed

theorem zero_header_entry_witness:
  "take 2 (printed (cf_entry [2, 0, 0, 0, 0, 0, 5, 5, 5, 7, 7, 0xf7000000] 12 0 1
      \<lparr>alu_off = 6, out = []\<rparr>)) =
     [Marker,
      CF 3 1 2 2 ([TAB]
                  @ ''00000000 00000000 00000000'' @ [TAB]
                  @ ''00000000 00000000 00000000'' @ [TAB]
                  @ ''01  CF:'' @ [TAB] @ ''ADDR(0x2) CNT(0x2)\<newline>'')]
   \<and> cf_fields (printed (cf_entry [2, 0, 0, 0, 0, 0, 5, 5, 5, 7, 7, 0xf7000000] 12 0 1
      \<lparr>alu_off = 6, out = []\<rparr>)) = [(1, 2, 2)]
   \<and> unat (word_of_int ((12 :: int) sdiv 3) - 6 div 3 :: u32) = 12 div 3 - 6 div 3"
proof -
  let ?buf = "[2, 0, 0, 0, 0, 0, 5, 5, 5, 7, 7, 0xf7000000] :: u32 list"
  have h: "dword_at ?buf (unat (1 * 3 :: u32)) = Inr 0" by (simp add: dword_at_def)
  have len: "length ?buf = 12" by simp
  have c: "(word_of_int ((12 :: int) sdiv 3) - 6 div 3 :: u32) = 2" "(6 :: u32) div 3 = 2"
    by simp_all
  have lv: "levels_at 0 = Inr [TAB]" by (simp add: levels_at_cases)
  have w: "fmt_3words 0 0 0 = ''00000000 00000000 00000000'' @ [TAB]" by code_simp
  have x: "fmt_x 2 = ''2''" "fmt_02d (sint (1 :: u32)) = ''01''"
    by (simp_all add: fmt_x.simps fmt_02d_def fmt_u.simps digit_def)
  show ?thesis
    using zero_header_entry [OF h, of 12 0 "\<lparr>alu_off = 6, out = []\<rparr>"] len c lv w x
    by auto
qed

end
